theory Spec2Isabelle
  imports Main "HOL-Library.Word"
begin

section \<open>German hyphenation utility (src/utils/hyphenation.ts)\<close>

text \<open>
  A JavaScript string is a sequence of UTF-16 code units, and \<open>length\<close>, indexing,
  \<open>slice\<close>, \<open>includes\<close>, \<open>startsWith\<close> and \<open>endsWith\<close> all count code units. Every
  letter of the German alphabet and the soft hyphen U+00AD are single code units.
\<close>

type_synonym jschar = "16 word"
type_synonym jsstring = "jschar list"

definition str :: "string \<Rightarrow> jsstring" where
  \<comment> \<open>an ASCII literal as code units\<close>
  "str s = map of_char s"

subsection \<open>String primitives of the language\<close>

definition charAt :: "jsstring \<Rightarrow> nat \<Rightarrow> jschar option" where
  \<comment> \<open>\<open>s[i]\<close>; \<open>None\<close> is JavaScript's \<open>undefined\<close>, the value of an out-of-range read\<close>
  "charAt s i = (if i < length s then Some (s ! i) else None)"

definition slice_str :: "jsstring \<Rightarrow> int \<Rightarrow> int \<Rightarrow> jsstring" where
  \<comment> \<open>\<open>s.slice(b, e)\<close>: a negative index counts from the end, both are clamped\<close>
  "slice_str s b e =
     (let n = int (length s);
          from = (if b < 0 then max (n + b) 0 else min b n);
          to = (if e < 0 then max (n + e) 0 else min e n)
      in take (nat (to - from)) (drop (nat from) s))"

definition slice_from :: "jsstring \<Rightarrow> int \<Rightarrow> jsstring" where
  \<comment> \<open>\<open>s.slice(b)\<close>\<close>
  "slice_from s b = slice_str s b (int (length s))"

definition startsWith :: "jsstring \<Rightarrow> jsstring \<Rightarrow> bool" where
  "startsWith s p = (take (length p) s = p)"

definition endsWith :: "jsstring \<Rightarrow> jsstring \<Rightarrow> bool" where
  "endsWith s p = (length p \<le> length s \<and> drop (length s - length p) s = p)"

fun includes_str :: "jsstring \<Rightarrow> jsstring \<Rightarrow> bool" where
  \<comment> \<open>\<open>s.includes(p)\<close>: \<open>p\<close> occurs in \<open>s\<close> as a contiguous substring\<close>
  "includes_str [] p = (p = [])"
| "includes_str (c # s) p = (startsWith (c # s) p \<or> includes_str s p)"

definition toLowerChar :: "jschar \<Rightarrow> jschar" where
  "toLowerChar c =
     (if (0x41 \<le> c \<and> c \<le> 0x5A) \<or> c = 0xC4 \<or> c = 0xD6 \<or> c = 0xDC then c + 0x20 else c)"

definition toLowerCase :: "jsstring \<Rightarrow> jsstring" where
  \<comment> \<open>\<open>word.toLowerCase()\<close> on the alphabet that \<open>hyphenateWord\<close> lets through to
      \<open>findSyllableBoundaries\<close> (a-z, A-Z, the umlauts, sharp s): A-Z and the capital umlauts
      move to their small letters, every other code unit of that alphabet stays.
      \<open>findSyllableBoundaries\<close> is private to the module and has no other caller.\<close>
  "toLowerCase s = map toLowerChar s"

definition sortLongestFirst :: "jsstring list \<Rightarrow> jsstring list" where
  \<comment> \<open>\<open>xs.sort((a, b) => b.length - a.length)\<close>: longest first, and stable, as the language
      standard requires of \<open>Array.prototype.sort\<close> since ES2019\<close>
  "sortLongestFirst xs = sort_key (\<lambda>s. - int (length s)) xs"

definition longestFirst :: "jsstring list \<Rightarrow> bool" where
  "longestFirst xs = sorted (map (\<lambda>s. - int (length s)) xs)"

subsection \<open>Module constants\<close>

definition SOFT_HYPHEN :: jschar where "SOFT_HYPHEN = 0xAD"
definition HYPHEN_MINUS :: jschar where "HYPHEN_MINUS = 0x2D"

definition ae :: jschar where "ae = 0xE4"
definition oe :: jschar where "oe = 0xF6"
definition ue :: jschar where "ue = 0xFC"
definition AE :: jschar where "AE = 0xC4"
definition OE :: jschar where "OE = 0xD6"
definition UE :: jschar where "UE = 0xDC"
definition sz :: jschar where "sz = 0xDF"

definition VOWELS :: jsstring where
  "VOWELS = str ''aeiou'' @ [ae, oe, ue] @ str ''yAEIOU'' @ [AE, OE, UE] @ str ''Y''"

text \<open>
  The three tables are module-level arrays. \<open>Array.prototype.sort\<close> sorts its receiver in
  place, so they are state shared by all calls: a record, passed in and returned.
\<close>

record tables =
  PREFIXES :: "jsstring list"
  SUFFIXES :: "jsstring list"
  INSEPARABLE_CLUSTERS :: "jsstring list"

definition initialTables :: tables where
  \<comment> \<open>the arrays as the module's initialisers write them\<close>
  "initialTables = \<lparr>
     PREFIXES =
       [ue # str ''ber'', str ''unter'', str ''hinter'', str ''zwischen'', str ''durch'',
        str ''wider'', str ''ge'', str ''be'', str ''ver'', str ''zer'', str ''ent'',
        str ''emp'', str ''er'', str ''miss'', str ''un'', str ''vor'', str ''nach'',
        str ''aus'', str ''ein'', str ''auf'', str ''ab'', str ''an'', str ''bei'',
        str ''mit'', str ''zu'', str ''hin'', str ''her'', str ''um'', str ''herum'',
        str ''hinaus'', str ''heraus''],
     SUFFIXES =
       [str ''schaft'', str ''heit'', str ''keit'', str ''ung'', str ''lich'', str ''isch'',
        str ''chen'', str ''lein'', str ''bar'', str ''sam'', str ''haft'', str ''los'',
        str ''voll'', str ''reich'', str ''arm'', str ''wert'', str ''weise'', str ''artig'',
        str ''m'' @ [ae, sz] @ str ''ig'', str ''tum'', str ''nis'', str ''sal'', str ''sel'',
        str ''tion'', str ''sion'', str ''ieren'', str ''ismus'', str ''ist'',
        str ''it'' @ [ae] @ str ''t''],
     INSEPARABLE_CLUSTERS =
       [str ''sch'', str ''ch'', str ''ck'', str ''ph'', str ''th'', str ''qu'', str ''pf'',
        str ''st'', str ''sp'', str ''bl'', str ''br'', str ''cl'', str ''cr'', str ''dr'',
        str ''fl'', str ''fr'', str ''gl'', str ''gr'', str ''kl'', str ''kn'', str ''kr'',
        str ''pl'', str ''pr'', str ''tr'', str ''schl'', str ''schn'', str ''schm'',
        str ''schr'', str ''schw'', str ''spr'', str ''str'']
   \<rparr>"

subsection \<open>Character classes\<close>

definition isGermanLetter :: "jschar \<Rightarrow> bool" where
  \<comment> \<open>the class of a-z, A-Z, the six umlauts and sharp s\<close>
  "isGermanLetter c =
     ((0x61 \<le> c \<and> c \<le> 0x7A) \<or> (0x41 \<le> c \<and> c \<le> 0x5A) \<or> c \<in> {ae, oe, ue, AE, OE, UE, sz})"

definition isVowel :: "jschar option \<Rightarrow> bool" where
  \<comment> \<open>\<open>VOWELS.includes(char)\<close>; the text \<open>undefined\<close> is no substring of \<open>VOWELS\<close>\<close>
  "isVowel char = (case char of None \<Rightarrow> False | Some c \<Rightarrow> c \<in> set VOWELS)"

definition isConsonant :: "jschar option \<Rightarrow> bool" where
  \<comment> \<open>A letter of the class a-z, small umlauts, sharp s, matched ignoring case, that is
      no vowel: \<open>regex.test(char) && !isVowel(char)\<close>. Ignoring case, the class accepts
      exactly the code units of \<open>isGermanLetter\<close>; \<open>test(undefined)\<close> searches the text
      \<open>undefined\<close> and finds a letter.\<close>
  "isConsonant char =
     ((case char of None \<Rightarrow> True | Some c \<Rightarrow> isGermanLetter c) \<and> \<not> isVowel char)"

subsection \<open>findSyllableBoundaries\<close>

fun prefixLoop :: "jsstring list \<Rightarrow> jsstring \<Rightarrow> jsstring \<Rightarrow> nat option" where
  \<comment> \<open>the loop over the sorted prefixes; \<open>Some n\<close> is the \<open>break\<close> with \<open>prefixEnd = n\<close>\<close>
  "prefixLoop [] word lowerWord = None"
| "prefixLoop (prefix # rest) word lowerWord =
     (if startsWith lowerWord prefix \<and> length word > length prefix + 2 then
        (let afterPrefix = slice_from lowerWord (int (length prefix)) in
         if length afterPrefix > 0 \<and>
            (isVowel (charAt afterPrefix 0) \<or> isConsonant (charAt afterPrefix 0))
         then Some (length prefix)
         else prefixLoop rest word lowerWord)
      else prefixLoop rest word lowerWord)"

fun suffixLoop :: "jsstring list \<Rightarrow> jsstring \<Rightarrow> jsstring \<Rightarrow> nat option" where
  \<comment> \<open>the loop over the sorted suffixes; \<open>Some n\<close> is the \<open>break\<close> with \<open>suffixStart = n\<close>\<close>
  "suffixLoop [] word lowerWord = None"
| "suffixLoop (suffix # rest) word lowerWord =
     (if endsWith lowerWord suffix \<and> length word > length suffix + 2 then
        (let beforeSuffix = slice_str lowerWord 0 (- int (length suffix)) in
         if length beforeSuffix > 0
         then Some (length word - length suffix)
         else suffixLoop rest word lowerWord)
      else suffixLoop rest word lowerWord)"

definition scanStep :: "jsstring \<Rightarrow> nat list \<times> jsstring list \<Rightarrow> nat \<Rightarrow> nat list \<times> jsstring list" where
  \<comment> \<open>one iteration of the middle loop at offset \<open>i\<close> (always at least 1), on the
      boundaries found so far and the cluster table. The first rule sorts the cluster
      table in place and computes a cluster length that nothing reads; the second reads
      the table in the order it has at that moment.\<close>
  "scanStep lowerWord st i =
     (let boundaries = fst st; clusters = snd st in
      if i \<in> set boundaries then st
      else
        let prev = charAt lowerWord (i - 1);
            curr = charAt lowerWord i;
            next = charAt lowerWord (i + 1)
        in
        if isVowel prev \<and> isConsonant curr \<and> next \<noteq> None \<and> isVowel next then
          (if i \<notin> set boundaries then boundaries @ [i] else boundaries,
           sortLongestFirst clusters)
        else if isConsonant prev \<and> isConsonant curr \<and> prev \<noteq> curr then
          (let testCluster = slice_str lowerWord (int i - 1) (int i + 2);
               isCluster = list_ex (\<lambda>ic. includes_str testCluster ic) clusters
           in
           if \<not> isCluster \<and> i \<notin> set boundaries then
             (let beforeHasVowel = list_ex (\<lambda>c. isVowel (Some c)) (slice_str lowerWord 0 (int i));
                  afterHasVowel = list_ex (\<lambda>c. isVowel (Some c)) (slice_from lowerWord (int i))
              in (if beforeHasVowel \<and> afterHasVowel then boundaries @ [i] else boundaries,
                  clusters))
           else st)
        else if isConsonant prev \<and> curr = prev \<and> prev \<noteq> Some (of_char CHR ''s'') then
          (if i \<notin> set boundaries then boundaries @ [i] else boundaries, clusters)
        else st)"

definition findSyllableBoundaries :: "tables \<Rightarrow> jsstring \<Rightarrow> nat list \<times> tables" where
  \<comment> \<open>returns the boundaries and the tables as the call leaves them. The middle loop runs
      \<open>i\<close> from \<open>start + 1\<close> while \<open>i < end - 1\<close>; \<open>end\<close> is at least 1 whenever the loop is
      reached, and for \<open>end = 0\<close> the range is empty as well.\<close>
  "findSyllableBoundaries t word =
     (let lowerWord = toLowerCase word in
      if length word < 4 then ([], t)
      else
        let prefixes = sortLongestFirst (PREFIXES t);
            found = prefixLoop prefixes word lowerWord;
            prefixEnd = (case found of None \<Rightarrow> 0 | Some n \<Rightarrow> n);
            boundaries = (case found of None \<Rightarrow> [] | Some n \<Rightarrow> [n]);
            suffixes = sortLongestFirst (SUFFIXES t);
            suffixStart =
              (case suffixLoop suffixes word lowerWord of None \<Rightarrow> length word | Some n \<Rightarrow> n);
            start = prefixEnd;
            end = suffixStart;
            scanned =
              foldl (scanStep lowerWord) (boundaries, INSEPARABLE_CLUSTERS t) [start + 1 ..< end - 1];
            boundaries' =
              (if suffixStart < length word \<and> suffixStart \<notin> set (fst scanned) then
                 (if suffixStart > 1 then fst scanned @ [suffixStart] else fst scanned)
               else fst scanned)
        in (sort boundaries',
            \<lparr>PREFIXES = prefixes, SUFFIXES = suffixes, INSEPARABLE_CLUSTERS = snd scanned\<rparr>))"

subsection \<open>hyphenateWord\<close>

definition insertStep :: "nat \<Rightarrow> jsstring \<Rightarrow> jsstring" where
  \<comment> \<open>the body of the insertion loop for the boundary \<open>pos\<close>\<close>
  "insertStep pos result =
     (if pos \<ge> 2 \<and> int pos \<le> int (length result) - 2
      then slice_str result 0 (int pos) @ [SOFT_HYPHEN] @ slice_from result (int pos)
      else result)"

definition insertMarkers :: "nat list \<Rightarrow> jsstring \<Rightarrow> jsstring" where
  \<comment> \<open>the insertion loop: from the last boundary down to the first\<close>
  "insertMarkers boundaries word = foldr insertStep boundaries word"

definition hyphenateWord :: "tables \<Rightarrow> jsstring \<Rightarrow> jsstring \<times> tables" where
  "hyphenateWord t word =
     (if length word < 5 then (word, t)
      else if HYPHEN_MINUS \<in> set word \<or> SOFT_HYPHEN \<in> set word then (word, t)
      else if \<not> (word \<noteq> [] \<and> list_all isGermanLetter word) then (word, t)
      else
        let found = findSyllableBoundaries t word;
            boundaries = fst found
        in if length boundaries = 0 then (word, snd found)
           else (insertMarkers boundaries word, snd found))"

subsection \<open>hyphenateText\<close>

definition isWhitespace :: "jschar \<Rightarrow> bool" where
  \<comment> \<open>the class \<open>\s\<close>: white space and line terminators\<close>
  "isWhitespace c =
     (c \<in> {0x09, 0x0A, 0x0B, 0x0C, 0x0D, 0x20, 0xA0, 0x1680, 0x2028, 0x2029, 0x202F, 0x205F,
            0x3000, 0xFEFF} \<or> (0x2000 \<le> c \<and> c \<le> 0x200A))"

function splitWhitespace :: "jsstring \<Rightarrow> jsstring list" where
  \<comment> \<open>\<open>text.split(/(\s+)/)\<close>: the runs between separators alternate with the separators
      themselves (the capture group keeps them); the first and the last run may be empty\<close>
  "splitWhitespace text =
     (let run = takeWhile (\<lambda>c. \<not> isWhitespace c) text;
          rest = dropWhile (\<lambda>c. \<not> isWhitespace c) text
      in if rest = [] then [run]
         else run # takeWhile isWhitespace rest # splitWhitespace (dropWhile isWhitespace rest))"
  by pat_completeness auto
termination
proof (relation "measure length")
  show "wf (measure length)" by simp
next
  fix s :: jsstring and run rest
  assume rest: "rest = dropWhile (\<lambda>c. \<not> isWhitespace c) s" and ne: "rest \<noteq> []"
  have "isWhitespace (hd rest)"
    using ne hd_dropWhile [of "\<lambda>c. \<not> isWhitespace c" s] unfolding rest by simp
  with ne have "length (dropWhile isWhitespace rest) < length rest"
    by (cases rest) (simp_all add: le_imp_less_Suc length_dropWhile_le)
  also have "length rest \<le> length s"
    unfolding rest by (rule length_dropWhile_le)
  finally show "(dropWhile isWhitespace rest, s) \<in> measure length" by simp
qed

declare splitWhitespace.simps [simp del]

definition hyphenatePart :: "tables \<Rightarrow> jsstring \<Rightarrow> jsstring \<times> tables" where
  \<comment> \<open>the callback of \<open>map\<close>: a part matching \<open>^\s+$\<close> is returned as it is\<close>
  "hyphenatePart t part =
     (if part \<noteq> [] \<and> list_all isWhitespace part then (part, t) else hyphenateWord t part)"

fun mapParts :: "tables \<Rightarrow> jsstring list \<Rightarrow> jsstring list \<times> tables" where
  \<comment> \<open>\<open>parts.map(callback)\<close>, left to right, each call seeing the tables the last one left\<close>
  "mapParts t [] = ([], t)"
| "mapParts t (part # parts) =
     (let r = hyphenatePart t part;
          rs = mapParts (snd r) parts
      in (fst r # fst rs, snd rs))"

definition hyphenateText :: "tables \<Rightarrow> jsstring \<Rightarrow> jsstring \<times> tables" where
  "hyphenateText t text =
     (let rs = mapParts t (splitWhitespace text) in (concat (fst rs), snd rs))"

subsection \<open>Reading the output\<close>

definition stripSoftHyphens :: "jsstring \<Rightarrow> jsstring" where
  \<comment> \<open>the string with every U+00AD removed\<close>
  "stripSoftHyphens s = filter (\<lambda>c. c \<noteq> SOFT_HYPHEN) s"

fun markerOffsetsFrom :: "nat \<Rightarrow> jsstring \<Rightarrow> nat list" where
  \<comment> \<open>for each U+00AD of the string, from left to right, the number of other code units
      before it, counted from \<open>n\<close>\<close>
  "markerOffsetsFrom n [] = []"
| "markerOffsetsFrom n (c # cs) =
     (if c = SOFT_HYPHEN then n # markerOffsetsFrom n cs else markerOffsetsFrom (Suc n) cs)"

definition markerOffsets :: "jsstring \<Rightarrow> nat list" where
  \<comment> \<open>the offsets, in the word without markers, at which the markers of the string sit\<close>
  "markerOffsets s = markerOffsetsFrom 0 s"

fun runLengthsFrom :: "nat \<Rightarrow> jsstring \<Rightarrow> nat list" where
  \<comment> \<open>the lengths of the maximal runs between markers and the two ends of the string;
      \<open>n\<close> is the length of the run being read\<close>
  "runLengthsFrom n [] = [n]"
| "runLengthsFrom n (c # cs) =
     (if c = SOFT_HYPHEN then n # runLengthsFrom 0 cs else runLengthsFrom (Suc n) cs)"

definition runLengths :: "jsstring \<Rightarrow> nat list" where
  "runLengths s = runLengthsFrom 0 s"

definition isWhitespaceRun :: "jsstring \<Rightarrow> bool" where
  \<comment> \<open>a part matching \<open>^\s+$\<close>\<close>
  "isWhitespaceRun part = (part \<noteq> [] \<and> list_all isWhitespace part)"

definition leavesTwo :: "jsstring \<Rightarrow> nat \<Rightarrow> bool" where
  \<comment> \<open>the offset has at least two code units of the word on each side\<close>
  "leavesTwo w p = (2 \<le> p \<and> p + 2 \<le> length w)"

definition startsClean :: "jsstring \<Rightarrow> bool" where
  \<comment> \<open>the string does not begin with white space\<close>
  "startsClean x = (case x of [] \<Rightarrow> True | c # _ \<Rightarrow> \<not> isWhitespace c)"

definition samePart :: "jsstring \<Rightarrow> jsstring \<Rightarrow> bool" where
  \<comment> \<open>a part \<open>p\<close> of the input and the part \<open>q\<close> at the same position of the output: equal but
      for soft hyphens, both white space or neither, and equal outright when \<open>p\<close> is white
      space or holds a code unit that is no German letter\<close>
  "samePart p q =
     (stripSoftHyphens q = stripSoftHyphens p \<and>
      isWhitespaceRun q = isWhitespaceRun p \<and>
      (isWhitespaceRun p \<longrightarrow> q = p) \<and>
      ((\<exists>c \<in> set p. \<not> isGermanLetter c) \<longrightarrow> q = p))"

subsection \<open>States of the tables\<close>

definition sameTables :: "tables \<Rightarrow> tables \<Rightarrow> bool" where
  \<comment> \<open>two states that differ at most in how far the tables are sorted already\<close>
  "sameTables t t' =
     (sortLongestFirst (PREFIXES t) = sortLongestFirst (PREFIXES t') \<and>
      sortLongestFirst (SUFFIXES t) = sortLongestFirst (SUFFIXES t') \<and>
      set (INSEPARABLE_CLUSTERS t) = set (INSEPARABLE_CLUSTERS t'))"

inductive reachable :: "tables \<Rightarrow> bool" where
  \<comment> \<open>the states the module can be in: as loaded, and after any call of an exported function\<close>
  loaded: "reachable initialTables"
| afterWord: "reachable t \<Longrightarrow> reachable (snd (hyphenateWord t w))"
| afterText: "reachable t \<Longrightarrow> reachable (snd (hyphenateText t x))"

definition sortedInPlace :: "tables \<Rightarrow> tables \<Rightarrow> bool" where
  \<comment> \<open>from \<open>t\<close> to \<open>t'\<close> each table is left as it was or replaced by its stable sort\<close>
  "sortedInPlace t t' =
     ((PREFIXES t' = PREFIXES t \<or> PREFIXES t' = sortLongestFirst (PREFIXES t)) \<and>
      (SUFFIXES t' = SUFFIXES t \<or> SUFFIXES t' = sortLongestFirst (SUFFIXES t)) \<and>
      (INSEPARABLE_CLUSTERS t' = INSEPARABLE_CLUSTERS t \<or>
       INSEPARABLE_CLUSTERS t' = sortLongestFirst (INSEPARABLE_CLUSTERS t)))"


definition suffixFits :: "jsstring \<Rightarrow> jsstring \<Rightarrow> bool" where
  \<comment> \<open>the suffix is not empty, ends the lower-cased word and leaves at least three code
      units before it\<close>
  "suffixFits word s = (s \<noteq> [] \<and> endsWith (toLowerCase word) s \<and> length s + 2 < length word)"

section \<open>Properties\<close>

subsection \<open>Slices and the insertion step\<close>

lemma slice_str_take: "slice_str s 0 (int n) = take n s"
  by (simp add: slice_str_def Let_def min_def)

lemma slice_from_drop: "slice_from s (int n) = drop n s"
  by (simp add: slice_from_def slice_str_def Let_def min_def)

lemma insertStep_eq:
  "insertStep pos r =
     (if 2 \<le> pos \<and> pos + 2 \<le> length r then take pos r @ [SOFT_HYPHEN] @ drop pos r else r)"
proof -
  have "(int pos \<le> int (length r) - 2) = (pos + 2 \<le> length r)" by linarith
  then show ?thesis
    by (simp add: insertStep_def slice_str_take slice_from_drop)
qed

lemma strip_append: "stripSoftHyphens (xs @ ys) = stripSoftHyphens xs @ stripSoftHyphens ys"
  by (simp add: stripSoftHyphens_def)

lemma strip_id: "SOFT_HYPHEN \<notin> set s \<Longrightarrow> stripSoftHyphens s = s"
  unfolding stripSoftHyphens_def by (rule filter_True) auto

lemma strip_insertStep: "stripSoftHyphens (insertStep pos r) = stripSoftHyphens r"
proof -
  have "stripSoftHyphens (take pos r @ [SOFT_HYPHEN] @ drop pos r)
          = stripSoftHyphens (take pos r) @ stripSoftHyphens (drop pos r)"
    by (simp add: stripSoftHyphens_def)
  also have "\<dots> = stripSoftHyphens (take pos r @ drop pos r)"
    by (simp only: strip_append)
  also have "\<dots> = stripSoftHyphens r" by simp
  finally show ?thesis by (simp add: insertStep_eq)
qed

lemma strip_insertMarkers: "stripSoftHyphens (insertMarkers bs w) = stripSoftHyphens w"
  by (induction bs) (simp_all add: insertMarkers_def strip_insertStep)

lemma strip_hyphenateWord: "stripSoftHyphens (fst (hyphenateWord t w)) = stripSoftHyphens w"
  by (simp add: hyphenateWord_def Let_def strip_insertMarkers)

subsection \<open>The boundaries do not depend on how far the tables are sorted\<close>

lemma sortLongestFirst_set: "set (sortLongestFirst xs) = set xs"
  by (simp add: sortLongestFirst_def)

lemma sortLongestFirst_sorted: "longestFirst (sortLongestFirst xs)"
  by (simp add: sortLongestFirst_def longestFirst_def)

lemma sortLongestFirst_id: "longestFirst xs \<Longrightarrow> sortLongestFirst xs = xs"
  unfolding sortLongestFirst_def longestFirst_def by (rule sort_key_id_if_sorted)

lemma sortLongestFirst_idem: "sortLongestFirst (sortLongestFirst xs) = sortLongestFirst xs"
  by (rule sortLongestFirst_id) (rule sortLongestFirst_sorted)

lemma scanStep_clusters:
  "snd (scanStep lw (b, c) i) = c \<or> snd (scanStep lw (b, c) i) = sortLongestFirst c"
  by (simp add: scanStep_def Let_def)

lemma scanStep_boundaries:
  assumes "set c = set c'"
  shows "fst (scanStep lw (b, c) i) = fst (scanStep lw (b, c') i)"
proof -
  have h: "list_ex P c = list_ex P c'" for P
    by (simp add: list_ex_iff assms)
  show ?thesis
    unfolding scanStep_def Let_def fst_conv snd_conv h by (simp only: if_distrib [of fst] fst_conv)
qed

lemma scan_clusters:
  "snd (foldl (scanStep lw) (b, c) is) = c \<or>
   snd (foldl (scanStep lw) (b, c) is) = sortLongestFirst c"
proof (induction "is" arbitrary: b c)
  case Nil
  show ?case by simp
next
  case (Cons i "is")
  obtain b' c' where st: "scanStep lw (b, c) i = (b', c')" by (cases "scanStep lw (b, c) i")
  have c': "c' = c \<or> c' = sortLongestFirst c"
    using scanStep_clusters [of lw b c i] st by simp
  from Cons.IH [of b' c'] c' show ?case
    by (auto simp: st sortLongestFirst_idem)
qed

lemma scan_boundaries:
  assumes "set c = set c'"
  shows "fst (foldl (scanStep lw) (b, c) is) = fst (foldl (scanStep lw) (b, c') is)"
  using assms
proof (induction "is" arbitrary: b c c')
  case Nil
  show ?case by simp
next
  case (Cons i "is")
  obtain b1 c1 where st: "scanStep lw (b, c) i = (b1, c1)" by (cases "scanStep lw (b, c) i")
  obtain b2 c2 where st': "scanStep lw (b, c') i = (b2, c2)" by (cases "scanStep lw (b, c') i")
  have "b1 = b2"
    using scanStep_boundaries [OF Cons.prems, of lw b i] st st' by simp
  moreover have "set c1 = set c"
    using scanStep_clusters [of lw b c i] st by (auto simp: sortLongestFirst_set)
  moreover have "set c2 = set c'"
    using scanStep_clusters [of lw b c' i] st' by (auto simp: sortLongestFirst_set)
  ultimately show ?case
    using Cons.IH [of c1 c2 b1] Cons.prems by (simp add: st st')
qed

lemma findSyllableBoundaries_sameTables:
  assumes "sameTables t t'"
  shows "fst (findSyllableBoundaries t w) = fst (findSyllableBoundaries t' w)"
proof -
  from assms have p: "sortLongestFirst (PREFIXES t) = sortLongestFirst (PREFIXES t')"
    and s: "sortLongestFirst (SUFFIXES t) = sortLongestFirst (SUFFIXES t')"
    and c: "set (INSEPARABLE_CLUSTERS t) = set (INSEPARABLE_CLUSTERS t')"
    by (simp_all add: sameTables_def)
  show ?thesis
    unfolding findSyllableBoundaries_def Let_def p s
    by (simp add: scan_boundaries [OF c])
qed

lemma findSyllableBoundaries_tables:
  "sameTables t (snd (findSyllableBoundaries t w))"
proof -
  have "set (snd (foldl (scanStep lw) (b, INSEPARABLE_CLUSTERS t) is)) = set (INSEPARABLE_CLUSTERS t)" for lw b "is"
    using scan_clusters [of lw b "INSEPARABLE_CLUSTERS t" "is"] by (auto simp: sortLongestFirst_set)
  then show ?thesis
    by (simp add: findSyllableBoundaries_def Let_def sameTables_def sortLongestFirst_idem)
qed

lemma hyphenateWord_sameTables:
  assumes "sameTables t t'"
  shows "fst (hyphenateWord t w) = fst (hyphenateWord t' w)"
  by (simp add: hyphenateWord_def Let_def findSyllableBoundaries_sameTables [OF assms])

lemma hyphenateWord_tables: "sameTables t (snd (hyphenateWord t w))"
  using findSyllableBoundaries_tables [of t w]
  by (simp add: hyphenateWord_def Let_def) (simp add: sameTables_def)

subsection \<open>The insertion loop\<close>

lemma insertStep_cases: "insertStep pos r = r \<or> SOFT_HYPHEN \<in> set (insertStep pos r)"
  by (simp add: insertStep_eq)

lemma insertStep_keeps_marker: "SOFT_HYPHEN \<in> set r \<Longrightarrow> SOFT_HYPHEN \<in> set (insertStep pos r)"
proof -
  assume a: "SOFT_HYPHEN \<in> set r"
  have "set (take pos r @ [SOFT_HYPHEN] @ drop pos r) = insert SOFT_HYPHEN (set (take pos r @ drop pos r))"
    by (simp only: set_append) auto
  then show ?thesis using a by (simp add: insertStep_eq)
qed

lemma insertMarkers_cases:
  "insertMarkers bs w = w \<or> SOFT_HYPHEN \<in> set (insertMarkers bs w)"
proof (induction bs)
  case Nil
  show ?case by (simp add: insertMarkers_def)
next
  case (Cons b bs)
  have step: "insertMarkers (b # bs) w = insertStep b (insertMarkers bs w)"
    by (simp add: insertMarkers_def)
  from Cons.IH show ?case
  proof
    assume "insertMarkers bs w = w"
    then show ?thesis using insertStep_cases [of b w] by (simp add: step)
  next
    assume "SOFT_HYPHEN \<in> set (insertMarkers bs w)"
    then show ?thesis by (simp add: step insertStep_keeps_marker)
  qed
qed

lemma hyphenateWord_cases:
  "fst (hyphenateWord t w) = w \<or> SOFT_HYPHEN \<in> set (fst (hyphenateWord t w))"
  using insertMarkers_cases [of "fst (findSyllableBoundaries t w)" w]
  by (simp add: hyphenateWord_def Let_def)

lemma hyphenateWord_marked: "SOFT_HYPHEN \<in> set w \<Longrightarrow> hyphenateWord t w = (w, t)"
  by (simp add: hyphenateWord_def)

lemma markerOffsetsFrom_append:
  "markerOffsetsFrom n (xs @ ys) =
     markerOffsetsFrom n xs @ markerOffsetsFrom (n + length (stripSoftHyphens xs)) ys"
  by (induction xs arbitrary: n) (simp_all add: stripSoftHyphens_def)

lemma markerOffsetsFrom_none: "SOFT_HYPHEN \<notin> set xs \<Longrightarrow> markerOffsetsFrom n xs = []"
  by (induction xs arbitrary: n) auto

lemma length_markers: "length s = length (stripSoftHyphens s) + length (markerOffsetsFrom n s)"
  by (induction s arbitrary: n) (simp_all add: stripSoftHyphens_def)

lemma markerOffsets_insert:
  assumes "SOFT_HYPHEN \<notin> set (take pos r)" "pos \<le> length r"
  shows "markerOffsets (take pos r @ [SOFT_HYPHEN] @ drop pos r) = pos # markerOffsets r"
proof -
  have len: "length (stripSoftHyphens (take pos r)) = pos"
    using assms by (simp add: strip_id)
  have none: "markerOffsetsFrom 0 (take pos r) = []"
    by (rule markerOffsetsFrom_none) (rule assms(1))
  have "markerOffsets r = markerOffsetsFrom 0 (take pos r @ drop pos r)"
    by (simp add: markerOffsets_def)
  also have "\<dots> = markerOffsetsFrom pos (drop pos r)"
    by (simp only: markerOffsetsFrom_append none len) simp
  finally have r: "markerOffsets r = markerOffsetsFrom pos (drop pos r)" .
  have "markerOffsets (take pos r @ [SOFT_HYPHEN] @ drop pos r)
          = markerOffsetsFrom pos ([SOFT_HYPHEN] @ drop pos r)"
    unfolding markerOffsets_def
    by (simp only: markerOffsetsFrom_append none len) simp
  then show ?thesis by (simp add: r)
qed

lemma insertMarkers_sorted:
  assumes "sorted bs" "SOFT_HYPHEN \<notin> set w"
  shows "markerOffsets (insertMarkers bs w) = filter (leavesTwo w) bs \<and>
         (\<forall>b. (\<forall>p \<in> set bs. b \<le> p) \<longrightarrow> take b (insertMarkers bs w) = take b w)"
  using assms(1)
proof (induction bs)
  case Nil
  show ?case using assms(2) by (simp add: insertMarkers_def markerOffsets_def markerOffsetsFrom_none)
next
  case (Cons b bs)
  let ?r = "insertMarkers bs w"
  have step: "insertMarkers (b # bs) w = insertStep b ?r"
    by (simp add: insertMarkers_def)
  from Cons.prems have sorted: "sorted bs" and least: "\<forall>p \<in> set bs. b \<le> p" by simp_all
  from Cons.IH [OF sorted] have offs: "markerOffsets ?r = filter (leavesTwo w) bs"
    and pre: "\<And>b'. (\<forall>p \<in> set bs. b' \<le> p) \<Longrightarrow> take b' ?r = take b' w" by simp_all
  have tk: "take b ?r = take b w" using pre least by simp
  have len: "length ?r = length w + length (filter (leavesTwo w) bs)"
    using length_markers [of ?r 0] offs assms(2)
    by (simp add: strip_insertMarkers strip_id markerOffsets_def)
  have cond: "(2 \<le> b \<and> b + 2 \<le> length ?r) = leavesTwo w b"
  proof (cases "filter (leavesTwo w) bs")
    case Nil
    then show ?thesis by (simp add: len leavesTwo_def)
  next
    case (Cons p ps)
    then have "p \<in> set (filter (leavesTwo w) bs)" by simp
    then have "p \<in> set bs" "leavesTwo w p" by simp_all
    with least have "b + 2 \<le> length w" by (auto simp: leavesTwo_def)
    then show ?thesis by (simp add: len leavesTwo_def)
  qed
  show ?case
  proof (cases "leavesTwo w b")
    case False
    with cond have "\<not> (2 \<le> b \<and> b + 2 \<le> length ?r)" by simp
    then have same: "insertMarkers (b # bs) w = ?r"
      unfolding step insertStep_eq by (rule if_not_P)
    show ?thesis using False offs pre least by (simp add: same) 
  next
    case True
    with cond have "2 \<le> b \<and> b + 2 \<le> length ?r" by simp
    then have ins: "insertMarkers (b # bs) w = take b ?r @ [SOFT_HYPHEN] @ drop b ?r"
      unfolding step insertStep_eq by (rule if_P)
    have ble: "b \<le> length ?r" using True by (simp add: len leavesTwo_def)
    have nomark: "SOFT_HYPHEN \<notin> set (take b ?r)"
      using assms(2) by (auto simp: tk dest: in_set_takeD)
    have "markerOffsets (insertMarkers (b # bs) w) = b # filter (leavesTwo w) bs"
      unfolding ins using markerOffsets_insert [OF nomark ble] by (simp add: offs)
    moreover have "take b' (insertMarkers (b # bs) w) = take b' w" if "b' \<le> b" for b'
    proof -
      have "take b' (insertMarkers (b # bs) w) = take b' (take b ?r)"
        unfolding ins using that ble by simp
      also have "\<dots> = take b' w" using that by (simp add: tk min_def)
      finally show ?thesis .
    qed
    ultimately show ?thesis using True by simp
  qed
qed

subsection \<open>The bounds of the inserted markers\<close>

lemma sorted_boundaries: "sorted (fst (findSyllableBoundaries t w))"
  by (simp add: findSyllableBoundaries_def Let_def)

lemma hyphenateWord_markers:
  assumes "SOFT_HYPHEN \<notin> set w"
  shows "set (markerOffsets (fst (hyphenateWord t w)))
           \<subseteq> {p \<in> set (fst (findSyllableBoundaries t w)). leavesTwo w p}"
proof -
  have none: "markerOffsets w = []"
    using assms by (simp add: markerOffsets_def markerOffsetsFrom_none)
  have "markerOffsets (insertMarkers (fst (findSyllableBoundaries t w)) w)
          = filter (leavesTwo w) (fst (findSyllableBoundaries t w))"
    using insertMarkers_sorted [OF sorted_boundaries assms] by simp
  then show ?thesis
    by (auto simp: hyphenateWord_def Let_def none)
qed

subsection \<open>Texts\<close>

lemma marker_not_whitespace: "\<not> isWhitespace SOFT_HYPHEN"
  by (simp add: isWhitespace_def SOFT_HYPHEN_def)

lemma set_strip: "set (stripSoftHyphens s) = set s - {SOFT_HYPHEN}"
  by (auto simp: stripSoftHyphens_def)

lemma hyphenateWord_set: "set (fst (hyphenateWord t w)) \<subseteq> insert SOFT_HYPHEN (set w)"
proof -
  have "set (fst (hyphenateWord t w)) - {SOFT_HYPHEN} = set w - {SOFT_HYPHEN}"
    using strip_hyphenateWord [of t w] by (simp only: set_strip [symmetric])
  then show ?thesis by blast
qed

lemma length_insertStep: "length r \<le> length (insertStep pos r)"
  by (simp add: insertStep_eq)

lemma length_insertMarkers: "length w \<le> length (insertMarkers bs w)"
proof (induction bs)
  case Nil
  show ?case by (simp add: insertMarkers_def)
next
  case (Cons b bs)
  have "insertMarkers (b # bs) w = insertStep b (insertMarkers bs w)"
    by (simp add: insertMarkers_def)
  with Cons.IH length_insertStep [of "insertMarkers bs w" b] show ?case by simp
qed

lemma length_hyphenateWord: "length w \<le> length (fst (hyphenateWord t w))"
  by (simp add: hyphenateWord_def Let_def length_insertMarkers)

lemma hyphenatePart_whitespace: "isWhitespaceRun p \<Longrightarrow> hyphenatePart t p = (p, t)"
  by (simp add: hyphenatePart_def isWhitespaceRun_def)

lemma hyphenatePart_strip: "stripSoftHyphens (fst (hyphenatePart t p)) = stripSoftHyphens p"
  by (simp add: hyphenatePart_def strip_hyphenateWord)

lemma hyphenatePart_set: "set (fst (hyphenatePart t p)) \<subseteq> insert SOFT_HYPHEN (set p)"
  using hyphenateWord_set [of t p] by (auto simp: hyphenatePart_def)

lemma hyphenatePart_length: "length p \<le> length (fst (hyphenatePart t p))"
  by (simp add: hyphenatePart_def length_hyphenateWord)

lemma hyphenatePart_clean:
  assumes "\<forall>c \<in> set p. \<not> isWhitespace c"
  shows "\<forall>c \<in> set (fst (hyphenatePart t p)). \<not> isWhitespace c"
  using assms hyphenatePart_set [of t p] marker_not_whitespace by auto

lemma hyphenatePart_run_back:
  assumes "isWhitespaceRun (fst (hyphenatePart t p))"
  shows "isWhitespaceRun p"
proof -
  let ?q = "fst (hyphenatePart t p)"
  from assms have all: "\<forall>c \<in> set ?q. isWhitespace c" and ne: "?q \<noteq> []"
    by (simp_all add: isWhitespaceRun_def list_all_iff)
  from all marker_not_whitespace have "SOFT_HYPHEN \<notin> set ?q" by blast
  then have "stripSoftHyphens ?q = ?q" by (rule strip_id)
  then have sp: "stripSoftHyphens p = ?q" by (simp add: hyphenatePart_strip)
  have "length ?q \<le> length p"
    unfolding sp [symmetric] stripSoftHyphens_def by (rule length_filter_le)
  with hyphenatePart_length [of p t] have "length (stripSoftHyphens p) = length p"
    by (simp add: sp)
  then have "stripSoftHyphens p = p"
    unfolding stripSoftHyphens_def by (metis length_filter_less filter_True less_irrefl)
  with sp assms show ?thesis by simp
qed

lemma split_last:
  assumes "dropWhile (\<lambda>c. \<not> isWhitespace c) x = []"
  shows "splitWhitespace x = [x]"
proof -
  from assms have "takeWhile (\<lambda>c. \<not> isWhitespace c) x = x"
    by (simp add: takeWhile_eq_all_conv)
  with assms show ?thesis
    by (subst splitWhitespace.simps) (simp add: Let_def)
qed

lemma split_more:
  assumes "dropWhile (\<lambda>c. \<not> isWhitespace c) x \<noteq> []"
  shows "splitWhitespace x =
           takeWhile (\<lambda>c. \<not> isWhitespace c) x
           # takeWhile isWhitespace (dropWhile (\<lambda>c. \<not> isWhitespace c) x)
           # splitWhitespace (dropWhile isWhitespace (dropWhile (\<lambda>c. \<not> isWhitespace c) x))"
  using assms by (subst splitWhitespace.simps) (simp add: Let_def)

lemma split_clean:
  assumes "\<forall>c \<in> set r. \<not> isWhitespace c"
  shows "splitWhitespace r = [r]"
  by (rule split_last) (simp add: assms)

lemma split_append:
  assumes r: "\<forall>c \<in> set r. \<not> isWhitespace c"
    and ws: "isWhitespaceRun ws"
    and x: "startsClean x"
  shows "splitWhitespace (r @ ws @ x) = r # ws # splitWhitespace x"
proof -
  let ?N = "\<lambda>c. \<not> isWhitespace c"
  from ws obtain c cs where wsc: "ws = c # cs" and c: "isWhitespace c"
    and all: "\<forall>c \<in> set ws. isWhitespace c"
    by (cases ws) (auto simp: isWhitespaceRun_def list_all_iff)
  have tk: "takeWhile ?N (r @ ws @ x) = r"
    using r c by (simp add: wsc)
  have dr: "dropWhile ?N (r @ ws @ x) = ws @ x"
    using r c by (simp add: wsc)
  have tkx: "takeWhile isWhitespace x = []" and drx: "dropWhile isWhitespace x = x"
    using x by (cases x; simp add: startsClean_def)+
  have tk2: "takeWhile isWhitespace (ws @ x) = ws"
    using all by (simp add: tkx)
  have dr2: "dropWhile isWhitespace (ws @ x) = x"
    using all by (simp add: drx)
  have "ws @ x \<noteq> []" by (simp add: wsc)
  then have "dropWhile ?N (r @ ws @ x) \<noteq> []" unfolding dr .
  from split_more [OF this] show ?thesis
    by (simp only: tk dr tk2 dr2)
qed

lemma concat_split: "concat (splitWhitespace x) = x"
proof (induction x rule: splitWhitespace.induct)
  case (1 x)
  let ?N = "\<lambda>c. \<not> isWhitespace c"
  show ?case
  proof (cases "dropWhile ?N x = []")
    case True
    then show ?thesis by (simp add: split_last)
  next
    case False
    from "1" [OF refl refl False]
    have "concat (splitWhitespace (dropWhile isWhitespace (dropWhile ?N x)))
            = dropWhile isWhitespace (dropWhile ?N x)" .
    then show ?thesis
      by (simp add: split_more [OF False])
  qed
qed

lemma whitespace_run:
  assumes "dropWhile (\<lambda>c. \<not> isWhitespace c) x \<noteq> []"
  shows "isWhitespaceRun (takeWhile isWhitespace (dropWhile (\<lambda>c. \<not> isWhitespace c) x))"
proof -
  let ?rest = "dropWhile (\<lambda>c. \<not> isWhitespace c) x"
  from assms obtain c cs where rest: "?rest = c # cs" by (cases ?rest) auto
  have "isWhitespace (hd ?rest)"
    using assms hd_dropWhile [of "\<lambda>c. \<not> isWhitespace c" x] by blast
  then have c: "isWhitespace c" unfolding rest by simp
  have "takeWhile isWhitespace ?rest \<noteq> []"
    unfolding rest using c by simp
  moreover have "\<forall>c \<in> set (takeWhile isWhitespace ?rest). isWhitespace c"
    by (blast dest: set_takeWhileD)
  ultimately show ?thesis
    unfolding isWhitespaceRun_def list_all_iff by blast
qed

lemma dropWhile_startsClean: "startsClean (dropWhile isWhitespace xs)"
proof (cases "dropWhile isWhitespace xs")
  case Nil
  show ?thesis unfolding startsClean_def Nil by simp
next
  case (Cons c cs)
  then have "dropWhile isWhitespace xs \<noteq> []" by simp
  then have "\<not> isWhitespace (hd (dropWhile isWhitespace xs))"
    by (rule hd_dropWhile)
  then show ?thesis unfolding startsClean_def Cons by simp
qed

lemma hyphenateText_startsClean:
  assumes "startsClean x"
  shows "startsClean (fst (hyphenateText t x))"
proof (cases x)
  case Nil
  have "splitWhitespace [] = [[]]" by (rule split_last) simp
  then show ?thesis
    by (simp add: Nil hyphenateText_def hyphenatePart_def hyphenateWord_def startsClean_def Let_def)
next
  case (Cons c cs)
  with assms have c: "\<not> isWhitespace c" by (simp add: startsClean_def)
  let ?N = "\<lambda>c. \<not> isWhitespace c"
  let ?run = "takeWhile ?N x"
  have "\<exists>rest. splitWhitespace x = ?run # rest"
  proof (cases "dropWhile ?N x = []")
    case True
    then have tw: "?run = x" by (simp add: takeWhile_eq_all_conv)
    show ?thesis unfolding split_last [OF True] tw by simp
  next
    case False
    from split_more [OF False] show ?thesis by blast
  qed
  then obtain rest where sp: "splitWhitespace x = ?run # rest" ..
  have run: "?run \<noteq> []" "\<forall>c \<in> set ?run. \<not> isWhitespace c"
    using c by (auto simp: Cons dest: set_takeWhileD)
  let ?r = "fst (hyphenatePart t ?run)"
  have "?r \<noteq> []" using hyphenatePart_length [of ?run t] run(1) by auto
  moreover have "\<forall>c \<in> set ?r. \<not> isWhitespace c"
    by (rule hyphenatePart_clean) (rule run(2))
  ultimately have "startsClean (?r @ ys)" for ys
    by (cases ?r) (simp_all add: startsClean_def)
  then show ?thesis
    by (simp add: hyphenateText_def sp Let_def)
qed

lemma split_hyphenateText:
  "splitWhitespace (fst (hyphenateText t x)) = fst (mapParts t (splitWhitespace x))"
proof (induction x arbitrary: t rule: splitWhitespace.induct)
  case (1 x)
  let ?N = "\<lambda>c. \<not> isWhitespace c"
  let ?run = "takeWhile ?N x"
  have run: "\<forall>c \<in> set ?run. \<not> isWhitespace c"
    by (auto dest: set_takeWhileD)
  have r: "\<forall>c \<in> set (fst (hyphenatePart t ?run)). \<not> isWhitespace c"
    by (rule hyphenatePart_clean) (rule run)
  show ?case
  proof (cases "dropWhile ?N x = []")
    case True
    then have x: "?run = x" by (simp add: takeWhile_eq_all_conv)
    have sp: "splitWhitespace x = [x]" by (rule split_last [OF True])
    have "fst (hyphenateText t x) = fst (hyphenatePart t x)"
      by (simp add: hyphenateText_def sp Let_def)
    moreover have "fst (mapParts t (splitWhitespace x)) = [fst (hyphenatePart t x)]"
      by (simp add: sp Let_def)
    moreover have "splitWhitespace (fst (hyphenatePart t x)) = [fst (hyphenatePart t x)]"
      using split_clean [OF r] unfolding x .
    ultimately show ?thesis by simp
  next
    case False
    let ?ws = "takeWhile isWhitespace (dropWhile ?N x)"
    let ?x' = "dropWhile isWhitespace (dropWhile ?N x)"
    let ?t1 = "snd (hyphenatePart t ?run)"
    have ws: "isWhitespaceRun ?ws"
      by (rule whitespace_run [OF False])
    have clean: "startsClean ?x'"
      by (rule dropWhile_startsClean)
    have parts: "fst (mapParts t (splitWhitespace x))
                   = fst (hyphenatePart t ?run) # ?ws # fst (mapParts ?t1 (splitWhitespace ?x'))"
      unfolding split_more [OF False] mapParts.simps Let_def fst_conv snd_conv
        hyphenatePart_whitespace [OF ws] ..
    have out: "fst (hyphenateText t x)
                 = fst (hyphenatePart t ?run) @ ?ws @ fst (hyphenateText ?t1 ?x')"
      unfolding hyphenateText_def Let_def fst_conv parts by simp
    have "splitWhitespace (fst (hyphenateText t x))
            = fst (hyphenatePart t ?run) # ?ws # splitWhitespace (fst (hyphenateText ?t1 ?x'))"
      unfolding out by (rule split_append [OF r ws hyphenateText_startsClean [OF clean]])
    also have "splitWhitespace (fst (hyphenateText ?t1 ?x')) = fst (mapParts ?t1 (splitWhitespace ?x'))"
      by (rule "1" [OF refl refl False])
    finally show ?thesis by (simp only: parts)
  qed
qed

lemma hyphenateWord_nonletter:
  "\<exists>c \<in> set w. \<not> isGermanLetter c \<Longrightarrow> hyphenateWord t w = (w, t)"
  by (auto simp: hyphenateWord_def list_all_iff)

lemma hyphenatePart_nonletter:
  "\<exists>c \<in> set p. \<not> isGermanLetter c \<Longrightarrow> hyphenatePart t p = (p, t)"
  by (simp add: hyphenatePart_def hyphenateWord_nonletter)

lemma hyphenatePart_samePart: "samePart p (fst (hyphenatePart t p))"
proof -
  have "isWhitespaceRun (fst (hyphenatePart t p)) = isWhitespaceRun p"
    using hyphenatePart_run_back [of t p] hyphenatePart_whitespace [of p t] by auto
  moreover have "fst (hyphenatePart t p) = p"
    if "isWhitespaceRun p \<or> list_ex (\<lambda>c. \<not> isGermanLetter c) p"
  proof -
    from that have "hyphenatePart t p = (p, t)"
      unfolding list_ex_iff
      using hyphenatePart_whitespace [of p t] hyphenatePart_nonletter [of p t] by blast
    then show ?thesis by simp
  qed
  ultimately show ?thesis
    by (auto simp: samePart_def hyphenatePart_strip list_ex_iff)
qed

lemma mapParts_samePart: "list_all2 samePart ps (fst (mapParts t ps))"
  by (induction ps arbitrary: t) (simp_all add: Let_def hyphenatePart_samePart)

lemma mapParts_strip:
  "stripSoftHyphens (concat (fst (mapParts t ps))) = stripSoftHyphens (concat ps)"
  by (induction ps arbitrary: t) (simp_all add: Let_def strip_append hyphenatePart_strip)

lemma strip_hyphenateText:
  "stripSoftHyphens (fst (hyphenateText t x)) = stripSoftHyphens x"
proof -
  have "stripSoftHyphens (fst (hyphenateText t x)) = stripSoftHyphens (concat (splitWhitespace x))"
    by (simp add: hyphenateText_def Let_def mapParts_strip)
  then show ?thesis by (simp only: concat_split)
qed


subsection \<open>What a call does to the tables\<close>

lemma sortedInPlace_refl: "sortedInPlace t t"
  by (simp add: sortedInPlace_def)

lemma sortedInPlace_trans:
  "sortedInPlace t t1 \<Longrightarrow> sortedInPlace t1 t2 \<Longrightarrow> sortedInPlace t t2"
  unfolding sortedInPlace_def by (auto simp: sortLongestFirst_idem)

lemma findSyllableBoundaries_sortedInPlace:
  "sortedInPlace t (snd (findSyllableBoundaries t w))"
  using scan_clusters [of _ _ "INSEPARABLE_CLUSTERS t"]
  by (simp add: findSyllableBoundaries_def Let_def sortedInPlace_def)

lemma hyphenateWord_sortedInPlace: "sortedInPlace t (snd (hyphenateWord t w))"
  using findSyllableBoundaries_sortedInPlace [of t w]
  by (simp add: hyphenateWord_def Let_def sortedInPlace_refl)

lemma hyphenatePart_sortedInPlace: "sortedInPlace t (snd (hyphenatePart t p))"
  by (simp add: hyphenatePart_def hyphenateWord_sortedInPlace sortedInPlace_refl)

lemma mapParts_sortedInPlace: "sortedInPlace t (snd (mapParts t ps))"
proof (induction ps arbitrary: t)
  case Nil
  show ?case by (simp add: sortedInPlace_refl)
next
  case (Cons p ps)
  have "sortedInPlace t (snd (mapParts (snd (hyphenatePart t p)) ps))"
    by (rule sortedInPlace_trans [OF hyphenatePart_sortedInPlace Cons.IH])
  then show ?case by (simp add: Let_def)
qed

lemma hyphenateText_sortedInPlace: "sortedInPlace t (snd (hyphenateText t x))"
  by (simp add: hyphenateText_def Let_def mapParts_sortedInPlace)


lemma sortedInPlace_sameTables: "sortedInPlace t t' \<Longrightarrow> sameTables t t'"
  unfolding sortedInPlace_def sameTables_def
  by (auto simp: sortLongestFirst_idem sortLongestFirst_set)

lemma sameTables_trans: "sameTables t t1 \<Longrightarrow> sameTables t1 t2 \<Longrightarrow> sameTables t t2"
  by (simp add: sameTables_def)

lemma reachable_sameTables: "reachable t \<Longrightarrow> sameTables initialTables t"
proof (induction rule: reachable.induct)
  case loaded
  show ?case by (simp add: sameTables_def)
next
  case (afterWord t w)
  from afterWord.IH sortedInPlace_sameTables [OF hyphenateWord_sortedInPlace]
  show ?case by (rule sameTables_trans)
next
  case (afterText t x)
  from afterText.IH sortedInPlace_sameTables [OF hyphenateText_sortedInPlace]
  show ?case by (rule sameTables_trans)
qed


subsection \<open>The suffix loop\<close>

lemma before_suffix:
  assumes "length s + 2 < length lw"
  shows "(0 < length (slice_str lw 0 (- int (length s)))) = (s \<noteq> [])"
  using assms by (cases s) (simp_all add: slice_str_def Let_def)

lemma suffixLoop_step:
  "suffixLoop (a # xs) word (toLowerCase word) =
     (if suffixFits word a then Some (length word - length a)
      else suffixLoop xs word (toLowerCase word))"
proof (cases "length a + 2 < length word")
  case True
  then have "length a + 2 < length (toLowerCase word)" by (simp add: toLowerCase_def)
  from before_suffix [OF this]
  have b: "(0 < length (slice_str (toLowerCase word) 0 (- int (length a)))) = (a \<noteq> [])" .
  show ?thesis
    unfolding suffixLoop.simps Let_def b suffixFits_def using True by auto
next
  case False
  then show ?thesis by (simp add: suffixFits_def)
qed

lemma suffixLoop_longest:
  assumes "longestFirst xs" "s \<in> set xs" "suffixFits word s"
  shows "\<exists>s' \<in> set xs. suffixFits word s' \<and> length s \<le> length s' \<and>
           suffixLoop xs word (toLowerCase word) = Some (length word - length s')"
  using assms
proof (induction xs)
  case Nil
  then show ?case by simp
next
  case (Cons a xs)
  from Cons.prems(1) have sorted: "longestFirst xs" and le: "\<forall>y \<in> set xs. length y \<le> length a"
    by (simp_all add: longestFirst_def)
  show ?case
  proof (cases "suffixFits word a")
    case True
    from Cons.prems(2) le have "length s \<le> length a" by auto
    moreover have "suffixLoop (a # xs) word (toLowerCase word) = Some (length word - length a)"
      unfolding suffixLoop_step using True by simp
    ultimately show ?thesis using True by (intro bexI [of _ a]) simp_all
  next
    case False
    with Cons.prems have "s \<in> set xs" by auto
    from Cons.IH [OF sorted this Cons.prems(3)]
    obtain s' where s': "s' \<in> set xs" "suffixFits word s'" "length s \<le> length s'"
      "suffixLoop xs word (toLowerCase word) = Some (length word - length s')" by blast
    have "suffixLoop (a # xs) word (toLowerCase word) = suffixLoop xs word (toLowerCase word)"
      unfolding suffixLoop_step using False by simp
    with s' show ?thesis by (intro bexI [of _ s']) simp_all
  qed
qed


lemma suffix_boundary:
  assumes "suffixLoop (sortLongestFirst (SUFFIXES t)) word (toLowerCase word) = Some n"
    and "1 < n" "n < length word" "4 \<le> length word"
  shows "n \<in> set (fst (findSyllableBoundaries t word))"
proof -
  have "\<not> length word < 4" using assms(4) by simp
  then show ?thesis
    unfolding findSyllableBoundaries_def Let_def assms(1) option.case
    using assms(2,3) by (simp only: if_False fst_conv set_sort if_True split: if_splits) auto
qed

subsection \<open>Runs on the tables as loaded\<close>

lemma hamburg_loaded:
  "fst (hyphenateWord initialTables (str ''HAMBURG'')) = str ''HAM'' @ [SOFT_HYPHEN] @ str ''BURG''"
  by code_simp

lemma geburt_loaded:
  "fst (hyphenateWord initialTables (str ''GEBURT'')) = str ''GE'' @ [SOFT_HYPHEN] @ str ''BURT''"
  by code_simp

lemma konto_loaded:
  "fst (hyphenateWord initialTables (str ''KONTO'')) = str ''KON'' @ [SOFT_HYPHEN] @ str ''TO''"
  by code_simp

lemma str_no_marker: "SOFT_HYPHEN \<notin> set (str ''HAMBURG'')" "SOFT_HYPHEN \<notin> set (str ''KONTO'')"
  by code_simp+

lemma hamburg_boundaries_loaded:
  "fst (findSyllableBoundaries initialTables (str ''HAMBURG'')) = [3]"
  by code_simp

lemma hamburg_affixes_loaded:
  "prefixLoop (sortLongestFirst (PREFIXES initialTables)) (str ''HAMBURG'') (str ''hamburg'') = None"
  "suffixLoop (sortLongestFirst (SUFFIXES initialTables)) (str ''HAMBURG'') (str ''hamburg'') = None"
  by code_simp+

lemma hamburg_rule:
  "toLowerCase (str ''HAMBURG'') = str ''hamburg''"
  "isConsonant (charAt (str ''hamburg'') 2)"
  "isConsonant (charAt (str ''hamburg'') 3)"
  "charAt (str ''hamburg'') 2 \<noteq> charAt (str ''hamburg'') 3"
  "\<not> isVowel (charAt (str ''hamburg'') 2)"
  "list_ex (\<lambda>c. isVowel (Some c)) (slice_str (str ''hamburg'') 0 3)"
  "list_ex (\<lambda>c. isVowel (Some c)) (slice_from (str ''hamburg'') 3)"
  by code_simp+

lemma hamburg_cluster_loaded:
  "\<not> list_ex (includes_str (slice_str (str ''hamburg'') 2 5)) (INSEPARABLE_CLUSTERS initialTables)"
  by code_simp


subsection \<open>Claims\<close>

text \<open>
  C8. A word of fewer than 5 code units comes back from \<open>hyphenateWord\<close> unchanged (and
  the tables are not touched).
\<close>

theorem C8_short_word_unchanged:
  "length w < 5 \<Longrightarrow> hyphenateWord t w = (w, t)"
  by (simp add: hyphenateWord_def)

theorem C8_short_word_unchanged_witness:
  "length (str ''ROT'') < 5 \<and>
   hyphenateWord initialTables (str ''ROT'') = (str ''ROT'', initialTables)"
  using C8_short_word_unchanged [of "str ''ROT''" initialTables] by (simp add: str_def)

text \<open>
  C5. \<open>hyphenateWord\<close> is idempotent: applied to its own result, in the state of the tables
  that the first call leaves, it returns that result again. This holds from every state
  of the tables.
\<close>

theorem C5_hyphenateWord_idempotent:
  "fst (hyphenateWord (snd (hyphenateWord t w)) (fst (hyphenateWord t w)))
     = fst (hyphenateWord t w)"
proof -
  from hyphenateWord_cases [of t w] show ?thesis
  proof
    assume same: "fst (hyphenateWord t w) = w"
    have "fst (hyphenateWord (snd (hyphenateWord t w)) w) = fst (hyphenateWord t w)"
      by (rule hyphenateWord_sameTables [symmetric]) (rule hyphenateWord_tables)
    then show ?thesis by (simp add: same)
  next
    assume "SOFT_HYPHEN \<in> set (fst (hyphenateWord t w))"
    then show ?thesis by (simp add: hyphenateWord_marked)
  qed
qed

theorem C5_hyphenateWord_idempotent_witness:
  "fst (hyphenateWord (snd (hyphenateWord initialTables (str ''HAMBURG'')))
         (str ''HAM'' @ [SOFT_HYPHEN] @ str ''BURG''))
     = str ''HAM'' @ [SOFT_HYPHEN] @ str ''BURG''"
  using C5_hyphenateWord_idempotent [of initialTables "str ''HAMBURG''"]
  by (simp only: hamburg_loaded)

text \<open>
  C6, as the claim states it, fails on a word that already carries a soft hyphen: the
  word comes back as it is, and removing its U+00AD does not give the word back.
\<close>

theorem C6_counterexample:
  "stripSoftHyphens (fst (hyphenateWord initialTables (str ''HAM'' @ [SOFT_HYPHEN] @ str ''BURG'')))
     \<noteq> str ''HAM'' @ [SOFT_HYPHEN] @ str ''BURG''"
  by code_simp

text \<open>
  C6 (amended). For every string \<open>w\<close>, removing every U+00AD from \<open>hyphenateWord(w)\<close>
  yields \<open>w\<close> with its own U+00AD removed; so it yields exactly \<open>w\<close> when \<open>w\<close> contains no
  U+00AD, and a \<open>w\<close> that contains one is returned as it is. The output is the input with
  zero or more soft hyphens inserted and no other code unit changed, moved or re-cased.
\<close>

theorem C6_strip_reconstructs:
  "stripSoftHyphens (fst (hyphenateWord t w)) = stripSoftHyphens w \<and>
   (SOFT_HYPHEN \<notin> set w \<longrightarrow> stripSoftHyphens (fst (hyphenateWord t w)) = w) \<and>
   (SOFT_HYPHEN \<in> set w \<longrightarrow> fst (hyphenateWord t w) = w)"
  by (simp add: strip_hyphenateWord strip_id hyphenateWord_marked)

theorem C6_strip_reconstructs_witness:
  "SOFT_HYPHEN \<notin> set (str ''HAMBURG'') \<and>
   stripSoftHyphens (str ''HAM'' @ [SOFT_HYPHEN] @ str ''BURG'') = str ''HAMBURG''"
proof -
  have n: "SOFT_HYPHEN \<notin> set (str ''HAMBURG'')" by (rule str_no_marker)
  from C6_strip_reconstructs [of initialTables "str ''HAMBURG''"] n
  have r: "stripSoftHyphens (fst (hyphenateWord initialTables (str ''HAMBURG''))) = str ''HAMBURG''"
    by blast
  from r [unfolded hamburg_loaded] n show ?thesis by blast
qed

text \<open>
  C3, as the claim states it, fails at both ends: the prefix boundary of GEBURT puts a
  marker at offset 2, and KONTO gets its marker at offset 3, which is its length less 2.
\<close>

theorem C3_counterexample:
  "\<not> (\<forall>off \<in> set (markerOffsets (fst (hyphenateWord initialTables (str ''GEBURT'')))).
        2 < off \<and> int off < int (length (str ''GEBURT'')) - 2) \<and>
   \<not> (\<forall>off \<in> set (markerOffsets (fst (hyphenateWord initialTables (str ''KONTO'')))).
        2 < off \<and> int off < int (length (str ''KONTO'')) - 2)"
  unfolding geburt_loaded konto_loaded by code_simp

text \<open>
  C3 (amended). For every word \<open>w\<close>, every soft hyphen that \<open>hyphenateWord\<close> inserts sits at
  an offset \<open>o\<close> of the original word with \<open>2 \<le> o \<le> length(w) - 2\<close>: both bounds are
  inclusive. It is also one of the boundaries that \<open>findSyllableBoundaries\<close> returned. (A
  word that carries a U+00AD already is returned as it is: nothing is inserted.)
\<close>

theorem C3_marker_bounds:
  "(SOFT_HYPHEN \<in> set w \<longrightarrow> fst (hyphenateWord t w) = w) \<and>
   (SOFT_HYPHEN \<notin> set w \<longrightarrow>
      (\<forall>off \<in> set (markerOffsets (fst (hyphenateWord t w))).
         2 \<le> off \<and> off + 2 \<le> length w \<and> off \<in> set (fst (findSyllableBoundaries t w))))"
  using hyphenateWord_markers [of w t] by (auto simp: leavesTwo_def hyphenateWord_marked)

theorem C3_marker_bounds_witness:
  "SOFT_HYPHEN \<notin> set (str ''KONTO'') \<and>
   markerOffsets (str ''KON'' @ [SOFT_HYPHEN] @ str ''TO'') = [3] \<and>
   3 \<in> set (fst (findSyllableBoundaries initialTables (str ''KONTO'')))"
proof -
  have m: "markerOffsets (str ''KON'' @ [SOFT_HYPHEN] @ str ''TO'') = [3]"
    by code_simp
  have n: "SOFT_HYPHEN \<notin> set (str ''KONTO'')" by (rule str_no_marker)
  from C3_marker_bounds [of "str ''KONTO''" initialTables] n
  have "\<forall>off \<in> set (markerOffsets (fst (hyphenateWord initialTables (str ''KONTO'')))).
          2 \<le> off \<and> off + 2 \<le> length (str ''KONTO'') \<and>
          off \<in> set (fst (findSyllableBoundaries initialTables (str ''KONTO'')))"
    by blast
  then have "\<forall>off \<in> set [3]. 2 \<le> off \<and> off + 2 \<le> length (str ''KONTO'') \<and>
          off \<in> set (fst (findSyllableBoundaries initialTables (str ''KONTO'')))"
    unfolding konto_loaded m .
  then have "3 \<in> set (fst (findSyllableBoundaries initialTables (str ''KONTO'')))" by simp
  with m n show ?thesis by blast
qed

text \<open>
  C2. Every maximal run of original characters between inserted markers and the ends of
  the word should have length at least 2. The code checks only the distance of a marker
  to the two ends of the word, not the distance between two markers: SAMTBAND gets
  boundaries 3 and 4, both are inserted, and the run between them is the single letter T.
\<close>

theorem C2_single_letter_run:
  "fst (hyphenateWord initialTables (str ''SAMTBAND''))
     = str ''SAM'' @ [SOFT_HYPHEN] @ str ''T'' @ [SOFT_HYPHEN] @ str ''BAND'' \<and>
   fst (findSyllableBoundaries initialTables (str ''SAMTBAND'')) = [3, 4] \<and>
   runLengths (fst (hyphenateWord initialTables (str ''SAMTBAND''))) = [3, 1, 4]"
  by code_simp

text \<open>
  C7, as the claim states it, fails on a text that already carries a soft hyphen: the
  text comes back as it is, and removing its U+00AD does not give the text back.
\<close>

theorem C7_counterexample:
  "stripSoftHyphens
     (fst (hyphenateText initialTables (str ''HAM'' @ [SOFT_HYPHEN] @ str ''BURG IST'')))
     \<noteq> str ''HAM'' @ [SOFT_HYPHEN] @ str ''BURG IST''"
  by code_simp

text \<open>
  C7 (amended). For every text, removing all U+00AD from \<open>hyphenateText(text)\<close> yields the
  text with its own U+00AD removed, hence the text exactly when it contains no U+00AD.
  Split at white space, output and input have the same number of runs; every white-space
  run of the input is at the same position of the output, unchanged; every other run
  differs from the input's run at that position by soft hyphens at most, and is no
  white-space run.
\<close>

theorem C7_whitespace_preserved:
  "stripSoftHyphens (fst (hyphenateText t x)) = stripSoftHyphens x \<and>
   (SOFT_HYPHEN \<notin> set x \<longrightarrow> stripSoftHyphens (fst (hyphenateText t x)) = x) \<and>
   list_all2 samePart (splitWhitespace x) (splitWhitespace (fst (hyphenateText t x)))"
  by (simp add: strip_hyphenateText strip_id split_hyphenateText mapParts_samePart)

theorem C7_whitespace_preserved_witness:
  "SOFT_HYPHEN \<notin> set (str ''HAMBURG IST'') \<and>
   stripSoftHyphens (fst (hyphenateText initialTables (str ''HAMBURG IST''))) = str ''HAMBURG IST'' \<and>
   fst (hyphenateText initialTables (str ''HAMBURG IST'')) = str ''HAM'' @ [SOFT_HYPHEN] @ str ''BURG IST''"
proof -
  have n: "SOFT_HYPHEN \<notin> set (str ''HAMBURG IST'')" by code_simp
  have e: "fst (hyphenateText initialTables (str ''HAMBURG IST''))
             = str ''HAM'' @ [SOFT_HYPHEN] @ str ''BURG IST''" by code_simp
  from C7_whitespace_preserved [of initialTables "str ''HAMBURG IST''"] n
  have "stripSoftHyphens (fst (hyphenateText initialTables (str ''HAMBURG IST''))) = str ''HAMBURG IST''"
    by blast
  with n e show ?thesis by blast
qed

text \<open>
  C10. \<open>hyphenateText\<close> cuts the text at white space only, so a token that holds any code
  unit outside a-z, A-Z, the umlauts and sharp s (a digit, a comma attached to a word) is
  handed to \<open>hyphenateWord\<close> whole and comes back unchanged, tables untouched; at its
  position the output has the same token, without any marker.
\<close>

theorem C10_token_with_other_character:
  "((\<exists>c \<in> set w. \<not> isGermanLetter c) \<longrightarrow> hyphenateWord t w = (w, t)) \<and>
   (\<forall>i < length (splitWhitespace x).
      (\<exists>c \<in> set (splitWhitespace x ! i). \<not> isGermanLetter c) \<longrightarrow>
      splitWhitespace (fst (hyphenateText t x)) ! i = splitWhitespace x ! i) \<and>
   length (splitWhitespace (fst (hyphenateText t x))) = length (splitWhitespace x)"
proof -
  have all: "list_all2 samePart (splitWhitespace x) (splitWhitespace (fst (hyphenateText t x)))"
    by (simp add: split_hyphenateText mapParts_samePart)
  have "splitWhitespace (fst (hyphenateText t x)) ! i = splitWhitespace x ! i"
    if "i < length (splitWhitespace x)" "\<exists>c \<in> set (splitWhitespace x ! i). \<not> isGermanLetter c" for i
    using list_all2_nthD [OF all that(1)] that(2) by (simp add: samePart_def)
  with list_all2_lengthD [OF all] show ?thesis
    by (simp add: hyphenateWord_nonletter)
qed

theorem C10_token_with_other_character_witness:
  "(of_char CHR '','' :: jschar) \<in> set (str ''HAMBURG,'') \<and>
   \<not> isGermanLetter (of_char CHR '','') \<and>
   hyphenateWord initialTables (str ''HAMBURG,'') = (str ''HAMBURG,'', initialTables) \<and>
   fst (hyphenateText initialTables (str ''HAMBURG, IST'')) = str ''HAMBURG, IST''"
proof -
  have c: "(of_char CHR '','' :: jschar) \<in> set (str ''HAMBURG,'')"
    and n: "\<not> isGermanLetter (of_char CHR '','')"
    and e: "fst (hyphenateText initialTables (str ''HAMBURG, IST'')) = str ''HAMBURG, IST''"
    by code_simp+
  from c n have "\<exists>c \<in> set (str ''HAMBURG,''). \<not> isGermanLetter c" by blast
  with C10_token_with_other_character [of "str ''HAMBURG,''" initialTables]
  have "hyphenateWord initialTables (str ''HAMBURG,'') = (str ''HAMBURG,'', initialTables)"
    by blast
  with c n e show ?thesis by blast
qed

text \<open>
  C9. \<open>hyphenateWord("HAMBURG")\<close> returns HAM, one U+00AD, BURG, in every state the
  tables can be in. The only boundary is offset 3, between M and B: no prefix and no suffix
  matches; at offset 3 the letter before is no vowel, so the first rule does not apply,
  and the second does: two different consonants, no inseparable cluster in the window
  \<open>mbu\<close>, a vowel before the offset and one from it on.
\<close>

theorem C9_hamburg:
  assumes "reachable t"
  shows "fst (hyphenateWord t (str ''HAMBURG'')) = str ''HAM'' @ [SOFT_HYPHEN] @ str ''BURG'' \<and>
         fst (findSyllableBoundaries t (str ''HAMBURG'')) = [3] \<and>
         toLowerCase (str ''HAMBURG'') = str ''hamburg'' \<and>
         prefixLoop (sortLongestFirst (PREFIXES t)) (str ''HAMBURG'') (str ''hamburg'') = None \<and>
         suffixLoop (sortLongestFirst (SUFFIXES t)) (str ''HAMBURG'') (str ''hamburg'') = None \<and>
         \<not> isVowel (charAt (str ''hamburg'') 2) \<and>
         isConsonant (charAt (str ''hamburg'') 2) \<and>
         isConsonant (charAt (str ''hamburg'') 3) \<and>
         charAt (str ''hamburg'') 2 \<noteq> charAt (str ''hamburg'') 3 \<and>
         \<not> list_ex (includes_str (slice_str (str ''hamburg'') 2 5)) (INSEPARABLE_CLUSTERS t) \<and>
         list_ex (\<lambda>c. isVowel (Some c)) (slice_str (str ''hamburg'') 0 3) \<and>
         list_ex (\<lambda>c. isVowel (Some c)) (slice_from (str ''hamburg'') 3)"
proof -
  from assms have same: "sameTables initialTables t" by (rule reachable_sameTables)
  then have p: "sortLongestFirst (PREFIXES t) = sortLongestFirst (PREFIXES initialTables)"
    and s: "sortLongestFirst (SUFFIXES t) = sortLongestFirst (SUFFIXES initialTables)"
    and c: "set (INSEPARABLE_CLUSTERS t) = set (INSEPARABLE_CLUSTERS initialTables)"
    by (simp_all add: sameTables_def)
  have w: "fst (hyphenateWord t (str ''HAMBURG'')) = str ''HAM'' @ [SOFT_HYPHEN] @ str ''BURG''"
    using hyphenateWord_sameTables [OF same, of "str ''HAMBURG''"] by (simp only: hamburg_loaded)
  have b: "fst (findSyllableBoundaries t (str ''HAMBURG'')) = [3]"
    using findSyllableBoundaries_sameTables [OF same, of "str ''HAMBURG''"]
    by (simp only: hamburg_boundaries_loaded)
  have cl: "\<not> list_ex (includes_str (slice_str (str ''hamburg'') 2 5)) (INSEPARABLE_CLUSTERS t)"
    using hamburg_cluster_loaded unfolding list_ex_iff c .
  from w b cl hamburg_rule hamburg_affixes_loaded show ?thesis
    unfolding p s by blast
qed

theorem C9_hamburg_witness:
  "reachable initialTables \<and>
   fst (hyphenateWord initialTables (str ''HAMBURG'')) = str ''HAM'' @ [SOFT_HYPHEN] @ str ''BURG'' \<and>
   fst (findSyllableBoundaries initialTables (str ''HAMBURG'')) = [3]"
  using C9_hamburg [OF reachable.loaded] reachable.loaded by blast







text \<open>
  C4, as the claim states it, fails: one character before the suffix is not enough. The
  word of five letters, U-umlaut B U N G, passes the guards of \<open>hyphenateWord\<close> and ends with
  the known suffix \<open>ung\<close>, two letters before it; no \<open>suffixStart\<close> is recorded, and offset 2
  is not among the boundaries.
\<close>

theorem C4_counterexample:
  "5 \<le> length (UE # str ''BUNG'') \<and>
   HYPHEN_MINUS \<notin> set (UE # str ''BUNG'') \<and> SOFT_HYPHEN \<notin> set (UE # str ''BUNG'') \<and>
   list_all isGermanLetter (UE # str ''BUNG'') \<and>
   str ''ung'' \<in> set (SUFFIXES initialTables) \<and>
   endsWith (toLowerCase (UE # str ''BUNG'')) (str ''ung'') \<and>
   1 \<le> length (UE # str ''BUNG'') - length (str ''ung'') \<and>
   suffixLoop (sortLongestFirst (SUFFIXES initialTables)) (UE # str ''BUNG'')
     (toLowerCase (UE # str ''BUNG'')) = None \<and>
   length (UE # str ''BUNG'') - length (str ''ung'')
     \<notin> set (fst (findSyllableBoundaries initialTables (UE # str ''BUNG'')))"
  by code_simp


text \<open>
  C4 (amended). For every word whose lower-cased form ends with a known suffix that leaves
  at least three characters before it, \<open>findSyllableBoundaries\<close> records \<open>suffixStart\<close> =
  length of the word less the length of the longest such suffix (the sorted table is
  tried from its longest entry), and that offset is in the returned boundary set. It
  holds in every state of the tables with the entries of the source, none of which is
  empty.
\<close>

theorem C4_suffix_boundary:
  assumes "suffix \<in> set (SUFFIXES t)" "suffix \<noteq> []"
    and "endsWith (toLowerCase word) suffix" "length suffix + 2 < length word"
  shows "\<exists>s \<in> set (SUFFIXES t).
           endsWith (toLowerCase word) s \<and> length s + 2 < length word \<and>
           length suffix \<le> length s \<and>
           suffixLoop (sortLongestFirst (SUFFIXES t)) word (toLowerCase word)
             = Some (length word - length s) \<and>
           length word - length s \<in> set (fst (findSyllableBoundaries t word))"
proof -
  from assms have f: "suffixFits word suffix" by (simp add: suffixFits_def)
  from assms(1) have m: "suffix \<in> set (sortLongestFirst (SUFFIXES t))"
    by (simp add: sortLongestFirst_set)
  from suffixLoop_longest [OF sortLongestFirst_sorted m f]
  obtain s where s: "s \<in> set (SUFFIXES t)" "suffixFits word s" "length suffix \<le> length s"
    and loop: "suffixLoop (sortLongestFirst (SUFFIXES t)) word (toLowerCase word)
                 = Some (length word - length s)"
    unfolding sortLongestFirst_set by blast
  from s(2) have ne: "s \<noteq> []" and lt: "length s + 2 < length word"
    by (simp_all add: suffixFits_def)
  from ne have pos: "0 < length s" by simp
  from pos lt have "1 < length word - length s" "length word - length s < length word"
    "4 \<le> length word"
    by linarith+
  from suffix_boundary [OF loop this]
  have "length word - length s \<in> set (fst (findSyllableBoundaries t word))" .
  with s loop show ?thesis
    unfolding suffixFits_def by (intro bexI [of _ s]) simp_all
qed

theorem C4_suffix_boundary_witness:
  "str ''ung'' \<in> set (SUFFIXES initialTables) \<and>
   endsWith (toLowerCase (str ''EHRUNG'')) (str ''ung'') \<and>
   suffixLoop (sortLongestFirst (SUFFIXES initialTables)) (str ''EHRUNG'')
     (toLowerCase (str ''EHRUNG'')) = Some 3 \<and>
   3 \<in> set (fst (findSyllableBoundaries initialTables (str ''EHRUNG'')))"
proof -
  have m: "str ''ung'' \<in> set (SUFFIXES initialTables)"
    and ne: "str ''ung'' \<noteq> []"
    and e: "endsWith (toLowerCase (str ''EHRUNG'')) (str ''ung'')"
    and l: "length (str ''ung'') + 2 < length (str ''EHRUNG'')"
    and loop: "suffixLoop (sortLongestFirst (SUFFIXES initialTables)) (str ''EHRUNG'')
                 (toLowerCase (str ''EHRUNG'')) = Some 3"
    and len: "length (str ''EHRUNG'') = 6"
    by code_simp+
  from C4_suffix_boundary [OF m ne e l] obtain s where "s \<in> set (SUFFIXES initialTables)"
    and body: "endsWith (toLowerCase (str ''EHRUNG'')) s \<and>
      length s + 2 < length (str ''EHRUNG'') \<and> length (str ''ung'') \<le> length s \<and>
      suffixLoop (sortLongestFirst (SUFFIXES initialTables)) (str ''EHRUNG'')
        (toLowerCase (str ''EHRUNG'')) = Some (length (str ''EHRUNG'') - length s) \<and>
      length (str ''EHRUNG'') - length s
        \<in> set (fst (findSyllableBoundaries initialTables (str ''EHRUNG'')))" ..
  from body have
    found: "suffixLoop (sortLongestFirst (SUFFIXES initialTables)) (str ''EHRUNG'')
       (toLowerCase (str ''EHRUNG'')) = Some (length (str ''EHRUNG'') - length s)"
    and inside: "length (str ''EHRUNG'') - length s
       \<in> set (fst (findSyllableBoundaries initialTables (str ''EHRUNG'')))"
    by blast+
  from found loop have eq: "length (str ''EHRUNG'') - length s = 3" by simp
  from inside have "3 \<in> set (fst (findSyllableBoundaries initialTables (str ''EHRUNG'')))"
    unfolding eq .
  with m e loop show ?thesis by blast
qed

end
